theory Spec2Isabelle
  imports Main
begin

section \<open>The schedule generator of Schedule.py\<close>

text \<open>
  The function \<^verbatim>\<open>generate_schedule\<close> of \<^verbatim>\<open>Schedule.py\<close> reads four globals (the
  roster \<^verbatim>\<open>team_names\<close> and the integers \<^verbatim>\<open>teams_per_match\<close>, \<^verbatim>\<open>tournament_days\<close>,
  \<^verbatim>\<open>matches_per_day\<close>); here they are arguments. Python integers are \<open>int\<close>, the
  dictionary \<^verbatim>\<open>team_match_count\<close> is a map, the two dictionaries that are appended to
  the schedule are records, and every exception the code can raise is a value.
\<close>

datatype py_error = ValueError | KeyError

type_synonym team = string

type_synonym match_count = "team \<rightharpoonup> int"

record match_rec =
  match_id :: int
  teams :: "team list"

record day_rec =
  day :: int
  matches :: "match_rec list"

subsection \<open>Python primitives used by the function\<close>

text \<open>\<^verbatim>\<open>range(n)\<close>: empty when \<open>n \<le> 0\<close>.\<close>

definition py_range :: "int \<Rightarrow> int list" where
  "py_range n = map int [0..<nat n]"

text \<open>\<^verbatim>\<open>xs[:k]\<close>: a negative \<open>k\<close> counts from the end of the list.\<close>

definition py_take :: "int \<Rightarrow> 'a list \<Rightarrow> 'a list" where
  "py_take k xs = (if 0 \<le> k then take (nat k) xs else take (nat (int (length xs) + k)) xs)"

text \<open>
  \<^verbatim>\<open>random.sample(population, k)\<close> raises ValueError unless \<open>0 \<le> k \<le> len(population)\<close>.
  The generator is a parameter: \<open>smp\<close> draws the sample from the generator state \<open>g\<close>
  and returns the next state.
\<close>

definition random_sample ::
  "('g \<Rightarrow> 'a list \<Rightarrow> nat \<Rightarrow> 'a list \<times> 'g) \<Rightarrow> 'g \<Rightarrow> 'a list \<Rightarrow> int \<Rightarrow> py_error + ('a list \<times> 'g)" where
  "random_sample smp g population k =
     (if 0 \<le> k \<and> k \<le> int (length population) then Inr (smp g population (nat k))
      else Inl ValueError)"

text \<open>
  \<^verbatim>\<open>sorted(names, key=lambda t: team_match_count[t])\<close>: the keys of all elements are
  computed first (a missing key raises KeyError), then the list is sorted stably.
\<close>

definition sorted_by_count :: "team list \<Rightarrow> match_count \<Rightarrow> py_error + team list" where
  "sorted_by_count names cnt =
     (if list_all (\<lambda>t. cnt t \<noteq> None) names then Inr (sort_key (\<lambda>t. the (cnt t)) names)
      else Inl KeyError)"

subsection \<open>The function\<close>

text \<open>Line 67: \<^verbatim>\<open>{team: a for team, a in zip(teams, [0] * len(teams))}\<close>.\<close>

definition init_counts :: "team list \<Rightarrow> match_count" where
  "init_counts names =
     fold (\<lambda>(t, a) m. m(t \<mapsto> a)) (zip names (replicate (length names) 0)) Map.empty"

text \<open>Lines 79-89: the teams of one match.\<close>

definition select_teams ::
  "('g \<Rightarrow> team list \<Rightarrow> nat \<Rightarrow> team list \<times> 'g) \<Rightarrow> 'g \<Rightarrow> team list \<Rightarrow> match_count \<Rightarrow> int
     \<Rightarrow> py_error + (team list \<times> 'g)" where
  "select_teams smp g names cnt teams_per_match =
     (case sorted_by_count names cnt of
        Inl e \<Rightarrow> Inl e
      | Inr sorted_teams \<Rightarrow>
          let match_teams = py_take teams_per_match sorted_teams in
          if int (length match_teams) < teams_per_match then
            let remaining_teams = filter (\<lambda>t. t \<notin> set match_teams) names in
            (case random_sample smp g remaining_teams
                    (teams_per_match - int (length match_teams)) of
               Inl e \<Rightarrow> Inl e
             | Inr (additional_teams, g') \<Rightarrow> Inr (match_teams @ additional_teams, g'))
          else Inr (match_teams, g))"

text \<open>Lines 92-93: \<^verbatim>\<open>for team in match_teams: team_match_count[team] += 1\<close>.\<close>

fun update_counts :: "match_count \<Rightarrow> team list \<Rightarrow> py_error + match_count" where
  "update_counts cnt [] = Inr cnt"
| "update_counts cnt (t # ts) =
     (case cnt t of
        None \<Rightarrow> Inl KeyError
      | Some c \<Rightarrow> update_counts (cnt(t \<mapsto> c + 1)) ts)"

text \<open>
  Lines 78-100, the body of the inner loop. Its state is the generator state, the
  counts, the next match id and the matches of the day so far.
\<close>

type_synonym 'g match_state = "'g \<times> match_count \<times> int \<times> match_rec list"

fun match_step ::
  "('g \<Rightarrow> team list \<Rightarrow> nat \<Rightarrow> team list \<times> 'g) \<Rightarrow> team list \<Rightarrow> int \<Rightarrow> 'g match_state
     \<Rightarrow> py_error + 'g match_state" where
  "match_step smp names teams_per_match (g, cnt, mid, day_matches) =
     (case select_teams smp g names cnt teams_per_match of
        Inl e \<Rightarrow> Inl e
      | Inr (match_teams, g') \<Rightarrow>
          (case update_counts cnt match_teams of
             Inl e \<Rightarrow> Inl e
           | Inr cnt' \<Rightarrow>
               Inr (g', cnt', mid + 1,
                    day_matches @ [\<lparr>match_id = mid, teams = match_teams\<rparr>])))"

text \<open>Line 77: \<^verbatim>\<open>for match in range(matches_per_day)\<close>, over the list of indices.\<close>

fun match_loop ::
  "('g \<Rightarrow> team list \<Rightarrow> nat \<Rightarrow> team list \<times> 'g) \<Rightarrow> team list \<Rightarrow> int \<Rightarrow> int list
     \<Rightarrow> 'g match_state \<Rightarrow> py_error + 'g match_state" where
  "match_loop smp names teams_per_match [] s = Inr s"
| "match_loop smp names teams_per_match (i # is) s =
     (case match_step smp names teams_per_match s of
        Inl e \<Rightarrow> Inl e
      | Inr s' \<Rightarrow> match_loop smp names teams_per_match is s')"

text \<open>
  Lines 75-105, the body of the outer loop for the day index \<open>d\<close>. Its state is the
  generator state, the counts, the next match id and the schedule so far.
\<close>

type_synonym 'g day_state = "'g \<times> match_count \<times> int \<times> day_rec list"

fun day_step ::
  "('g \<Rightarrow> team list \<Rightarrow> nat \<Rightarrow> team list \<times> 'g) \<Rightarrow> team list \<Rightarrow> int \<Rightarrow> int \<Rightarrow> int
     \<Rightarrow> 'g day_state \<Rightarrow> py_error + 'g day_state" where
  "day_step smp names teams_per_match matches_per_day d (g, cnt, mid, schedule) =
     (case match_loop smp names teams_per_match (py_range matches_per_day) (g, cnt, mid, []) of
        Inl e \<Rightarrow> Inl e
      | Inr (g', cnt', mid', day_matches) \<Rightarrow>
          Inr (g', cnt', mid', schedule @ [\<lparr>day = d + 1, matches = day_matches\<rparr>]))"

text \<open>Line 74: \<^verbatim>\<open>for day in range(tournament_days)\<close>.\<close>

fun day_loop ::
  "('g \<Rightarrow> team list \<Rightarrow> nat \<Rightarrow> team list \<times> 'g) \<Rightarrow> team list \<Rightarrow> int \<Rightarrow> int \<Rightarrow> int list
     \<Rightarrow> 'g day_state \<Rightarrow> py_error + 'g day_state" where
  "day_loop smp names teams_per_match matches_per_day [] s = Inr s"
| "day_loop smp names teams_per_match matches_per_day (d # ds) s =
     (case day_step smp names teams_per_match matches_per_day d s of
        Inl e \<Rightarrow> Inl e
      | Inr s' \<Rightarrow> day_loop smp names teams_per_match matches_per_day ds s')"

text \<open>
  Lines 62-107. The result is the pair the function returns, with the state in which
  it leaves the random generator.
\<close>

definition generate_schedule ::
  "('g \<Rightarrow> team list \<Rightarrow> nat \<Rightarrow> team list \<times> 'g) \<Rightarrow> 'g \<Rightarrow> team list \<Rightarrow> int \<Rightarrow> int \<Rightarrow> int
     \<Rightarrow> py_error + ((day_rec list \<times> match_count) \<times> 'g)" where
  "generate_schedule smp g team_names teams_per_match tournament_days matches_per_day =
     (case day_loop smp team_names teams_per_match matches_per_day (py_range tournament_days)
             (g, init_counts team_names, 1, []) of
        Inl e \<Rightarrow> Inl e
      | Inr (g', cnt, mid, schedule) \<Rightarrow> Inr ((schedule, cnt), g'))"

subsection \<open>Observations on the results\<close>

text \<open>
  Lines 79-82: the first \<^verbatim>\<open>teams_per_match\<close> teams of the sorted roster, which
  \<open>select_teams\<close> returns unchanged when the roster is long enough
  (lemma \<open>select_teams_enough\<close> below).
\<close>

definition primary_selection :: "team list \<Rightarrow> match_count \<Rightarrow> int \<Rightarrow> team list" where
  "primary_selection names cnt k = py_take k (sort_key (\<lambda>t. the (cnt t)) names)"

text \<open>\<^verbatim>\<open>sum(team_match_count.values())\<close>.\<close>

definition count_sum :: "match_count \<Rightarrow> int" where
  "count_sum cnt = (\<Sum>t\<in>dom cnt. the (cnt t))"

text \<open>
  The largest count of a roster team minus the smallest one, and the same bound said
  without a maximum: no two roster teams are more than one match apart.
\<close>

definition count_spread :: "team list \<Rightarrow> match_count \<Rightarrow> int" where
  "count_spread names cnt =
     Max ((\<lambda>t. the (cnt t)) ` set names) - Min ((\<lambda>t. the (cnt t)) ` set names)"

definition balanced :: "team list \<Rightarrow> match_count \<Rightarrow> bool" where
  "balanced names cnt = (\<forall>t\<in>set names. \<forall>u\<in>set names. the (cnt t) - the (cnt u) \<le> 1)"

text \<open>What every match record of a schedule satisfies.\<close>

definition wf_match :: "team list \<Rightarrow> int \<Rightarrow> match_rec \<Rightarrow> bool" where
  "wf_match names k m \<longleftrightarrow>
     length (teams m) = length (py_take k names) \<and> set (teams m) \<subseteq> set names \<and>
     (distinct names \<longrightarrow> distinct (teams m))"

text \<open>
  The invariant of the inner loop after \<open>n\<close> iterations that started with generator
  state \<open>g\<close>, counts \<open>c0\<close>, match id \<open>m0\<close> and no match, and the invariant of the
  outer loop after \<open>n\<close> days.
\<close>

definition match_inv ::
  "team list \<Rightarrow> int \<Rightarrow> 'g \<Rightarrow> match_count \<Rightarrow> int \<Rightarrow> nat \<Rightarrow> 'g match_state \<Rightarrow> bool" where
  "match_inv names k g c0 m0 n s =
     (case s of (g', c, m, dm) \<Rightarrow>
        g' = g \<and> dom c = set names \<and> m = m0 + int n \<and> length dm = n \<and>
        map match_id dm = map (\<lambda>i. m0 + int i) [0..<n] \<and>
        (\<forall>x\<in>set dm. wf_match names k x) \<and>
        count_sum c = count_sum c0 + int (n * length (py_take k names)) \<and>
        (distinct names \<longrightarrow> balanced names c0 \<longrightarrow> balanced names c) \<and>
        (n = 0 \<longrightarrow> c = c0) \<and>
        (0 < n \<longrightarrow> teams (hd dm) = primary_selection names c0 k))"

definition day_inv ::
  "team list \<Rightarrow> int \<Rightarrow> int \<Rightarrow> 'g \<Rightarrow> match_count \<Rightarrow> int \<Rightarrow> nat \<Rightarrow> 'g day_state \<Rightarrow> bool" where
  "day_inv names k mpd g c0 m0 n s =
     (case s of (g', c, m, sch) \<Rightarrow>
        g' = g \<and> dom c = set names \<and> m = m0 + int (n * nat mpd) \<and> length sch = n \<and>
        (\<forall>d\<in>set sch. length (matches d) = nat mpd \<and> (\<forall>x\<in>set (matches d). wf_match names k x)) \<and>
        map match_id (concat (map matches sch)) = map (\<lambda>i. m0 + int i) [0..<n * nat mpd] \<and>
        count_sum c = count_sum c0 + int (n * nat mpd * length (py_take k names)) \<and>
        (distinct names \<longrightarrow> balanced names c0 \<longrightarrow> balanced names c) \<and>
        (n = 0 \<longrightarrow> c = c0) \<and>
        (0 < n \<longrightarrow> 0 < mpd \<longrightarrow> teams (hd (matches (hd sch))) = primary_selection names c0 k))"

text \<open>
  Two sample functions, for running the function on concrete inputs: the first \<open>k\<close>
  elements of the population, and the first \<open>k\<close> elements of the population rotated
  by a counter.
\<close>

definition sample_prefix :: "unit \<Rightarrow> team list \<Rightarrow> nat \<Rightarrow> team list \<times> unit" where
  "sample_prefix g population k = (take k population, g)"

definition sample_rotate :: "nat \<Rightarrow> team list \<Rightarrow> nat \<Rightarrow> team list \<times> nat" where
  "sample_rotate g population k = (take k (rotate g population), Suc g)"

section \<open>Lemmas\<close>

subsection \<open>The initial counts and the slice\<close>

lemma init_counts_eq: "init_counts names t = (if t \<in> set names then Some 0 else None)"
proof -
  have "fold (\<lambda>(t, a) m. m(t \<mapsto> a)) (map (\<lambda>x. (x, 0::int)) ts) m t
          = (if t \<in> set ts then Some 0 else m t)" for ts and m :: match_count
    by (induction ts arbitrary: m) auto
  then show ?thesis
    by (simp add: init_counts_def zip_replicate2)
qed

lemma dom_init_counts: "dom (init_counts names) = set names"
  by (auto simp: dom_def init_counts_eq)

lemma py_take_is_take: "\<exists>n. py_take k xs = take n xs"
  by (auto simp: py_take_def)

lemma length_py_take_cong: "length xs = length ys \<Longrightarrow> length (py_take k xs) = length (py_take k ys)"
  by (simp add: py_take_def)

lemma length_py_take_nonneg:
  "0 \<le> k \<Longrightarrow> k \<le> int (length xs) \<Longrightarrow> length (py_take k xs) = nat k"
  by (simp add: py_take_def)

lemma py_take_short_iff: "int (length (py_take k xs)) < k \<longleftrightarrow> int (length xs) < k"
  by (auto simp: py_take_def)

lemma set_py_take: "set (py_take k xs) \<subseteq> set xs"
  by (auto simp: py_take_def dest: in_set_takeD)

lemma distinct_py_take: "distinct xs \<Longrightarrow> distinct (py_take k xs)"
  by (simp add: py_take_def)

subsection \<open>One match\<close>

text \<open>
  The increments never raise on teams that are keys, keep the keys, and add to each
  count the number of times its team stands in the match.
\<close>

lemma update_counts_lookup:
  "update_counts cnt ts = Inr cnt' \<Longrightarrow>
   cnt' t = (case cnt t of None \<Rightarrow> None | Some c \<Rightarrow> Some (c + int (count_list ts t)))"
  by (induction ts arbitrary: cnt) (auto split: option.splits)

lemma update_counts_ok:
  "set ts \<subseteq> dom cnt \<Longrightarrow> \<exists>cnt'. update_counts cnt ts = Inr cnt'"
proof (induction ts arbitrary: cnt)
  case Nil
  show ?case by simp
next
  case (Cons t ts)
  from Cons.prems obtain c where c: "cnt t = Some c" by auto
  from Cons.prems have "set ts \<subseteq> dom (cnt(t \<mapsto> c + 1))" by auto
  from Cons.IH [OF this] obtain cnt' where "update_counts (cnt(t \<mapsto> c + 1)) ts = Inr cnt'" ..
  then show ?case by (simp add: c)
qed

lemma dom_update_counts: "update_counts cnt ts = Inr cnt' \<Longrightarrow> dom cnt' = dom cnt"
  by (auto simp: dom_def update_counts_lookup split: option.splits)

lemma sum_update_counts:
  assumes "update_counts cnt ts = Inr cnt'" "set ts \<subseteq> dom cnt" "finite (dom cnt)"
  shows "(\<Sum>t\<in>dom cnt'. the (cnt' t)) = (\<Sum>t\<in>dom cnt. the (cnt t)) + int (length ts)"
proof -
  have "(\<Sum>t\<in>dom cnt. the (cnt' t)) = (\<Sum>t\<in>dom cnt. the (cnt t) + int (count_list ts t))"
    by (rule sum.cong) (auto simp: update_counts_lookup [OF assms(1)])
  also have "\<dots> = (\<Sum>t\<in>dom cnt. the (cnt t)) + int (\<Sum>t\<in>dom cnt. count_list ts t)"
    by (simp add: sum.distrib)
  also have "(\<Sum>t\<in>dom cnt. count_list ts t) = length ts"
    using assms(2,3) by (rule sum_count_set)
  finally show ?thesis
    by (simp add: dom_update_counts [OF assms(1)])
qed

text \<open>
  With counts for all roster teams the sort does not raise. A roster of at least
  \<open>teams_per_match\<close> teams never reaches the sample; a shorter one always does, with
  an empty list to sample from.
\<close>

lemma sorted_by_count_ok:
  "set names \<subseteq> dom cnt \<Longrightarrow> sorted_by_count names cnt = Inr (sort_key (\<lambda>t. the (cnt t)) names)"
  by (auto simp: sorted_by_count_def list_all_iff)

lemma select_teams_enough:
  assumes "teams_per_match \<le> int (length names)" "set names \<subseteq> dom cnt"
  shows "select_teams smp g names cnt teams_per_match = Inr (primary_selection names cnt teams_per_match, g)"
  using assms
  by (simp add: select_teams_def sorted_by_count_ok primary_selection_def Let_def py_take_short_iff)

lemma select_teams_short:
  assumes "int (length names) < teams_per_match" "set names \<subseteq> dom cnt"
  shows "select_teams smp g names cnt teams_per_match = Inl ValueError"
proof -
  let ?srt = "sort_key (\<lambda>t. the (cnt t)) names"
  from assms(1) have all: "py_take teams_per_match ?srt = ?srt"
    by (simp add: py_take_def)
  have "filter (\<lambda>t. t \<notin> set ?srt) names = []"
    by (simp add: filter_empty_conv)
  with assms all show ?thesis
    by (simp add: select_teams_def sorted_by_count_ok Let_def random_sample_def)
qed

lemma match_step_enough:
  assumes "teams_per_match \<le> int (length names)" "set names \<subseteq> dom cnt"
  shows "\<exists>cnt'. update_counts cnt (primary_selection names cnt teams_per_match) = Inr cnt' \<and>
           match_step smp names teams_per_match (g, cnt, mid, dm) =
             Inr (g, cnt', mid + 1,
                  dm @ [\<lparr>match_id = mid, teams = primary_selection names cnt teams_per_match\<rparr>])"
proof -
  have "set (primary_selection names cnt teams_per_match) \<subseteq> dom cnt"
    using set_py_take [of teams_per_match "sort_key (\<lambda>t. the (cnt t)) names"] assms(2)
    by (auto simp: primary_selection_def)
  from update_counts_ok [OF this] obtain cnt'
    where "update_counts cnt (primary_selection names cnt teams_per_match) = Inr cnt'" ..
  then show ?thesis
    by (simp add: select_teams_enough [OF assms])
qed

lemma count_list_distinct:
  "distinct xs \<Longrightarrow> count_list xs x = (if x \<in> set xs then 1 else 0)"
  by (induction xs) auto

lemma balanced_update:
  assumes d: "distinct names" and dom: "set names \<subseteq> dom cnt" and b: "balanced names cnt"
    and u: "update_counts cnt (primary_selection names cnt k) = Inr cnt'"
  shows "balanced names cnt'"
proof -
  let ?f = "\<lambda>t. the (cnt t)"
  let ?srt = "sort_key ?f names"
  obtain n where sel: "primary_selection names cnt k = take n ?srt"
    using py_take_is_take [of k ?srt] by (auto simp: primary_selection_def)
  have "sorted (map ?f (take n ?srt @ drop n ?srt))" by simp
  then have le: "?f x \<le> ?f y" if "x \<in> set (take n ?srt)" "y \<in> set (drop n ?srt)" for x y
    using that unfolding map_append sorted_append by auto
  have rest: "y \<in> set (drop n ?srt)" if "y \<in> set names" "y \<notin> set (take n ?srt)" for y
  proof -
    have "set names = set (take n ?srt @ drop n ?srt)" by simp
    with that show ?thesis unfolding set_append by blast
  qed
  have "distinct (take n ?srt)" using d by simp
  then have cl: "count_list (take n ?srt) t = (if t \<in> set (take n ?srt) then 1 else 0)" for t
    by (simp add: count_list_distinct)
  have new: "the (cnt' t) = ?f t + (if t \<in> set (take n ?srt) then 1 else 0)"
    if "t \<in> set names" for t
  proof -
    from that dom obtain c where "cnt t = Some c" by auto
    then show ?thesis
      using update_counts_lookup [OF u, of t] by (simp add: sel cl)
  qed
  show ?thesis
    unfolding balanced_def
  proof (intro ballI)
    fix t u assume t: "t \<in> set names" and u: "u \<in> set names"
    from b t u have tu: "?f t - ?f u \<le> 1" by (simp add: balanced_def)
    show "the (cnt' t) - the (cnt' u) \<le> 1"
    proof (cases "t \<in> set (take n ?srt) \<and> u \<notin> set (take n ?srt)")
      case True
      then have "?f t \<le> ?f u" using le rest u by blast
      with True show ?thesis by (simp add: new t u)
    next
      case False
      with tu show ?thesis by (auto simp: new t u)
    qed
  qed
qed

subsection \<open>The loops\<close>

text \<open>
  An invariant that every iteration re-establishes without raising holds when the loop
  ends, and the loop does not raise. A loop over a list of indices that is split in two
  is the loop over the first part followed by the loop over the second, so the state a
  run is in after some iterations is the result of the loop over a prefix of its indices.
\<close>

lemma match_loop_append:
  "match_loop smp names tpm (is @ js) s =
     (case match_loop smp names tpm is s of
        Inl e \<Rightarrow> Inl e
      | Inr s' \<Rightarrow> match_loop smp names tpm js s')"
  by (induction "is" arbitrary: s) (simp_all split: sum.splits)

lemma day_loop_append:
  "day_loop smp names tpm mpd (ds @ es) s =
     (case day_loop smp names tpm mpd ds s of
        Inl e \<Rightarrow> Inl e
      | Inr s' \<Rightarrow> day_loop smp names tpm mpd es s')"
  by (induction ds arbitrary: s) (simp_all split: sum.splits)

lemma match_loop_rule:
  assumes "P k s"
    and "\<And>k s. P k s \<Longrightarrow> \<exists>s'. match_step smp names tpm s = Inr s' \<and> P (Suc k) s'"
  shows "\<exists>s'. match_loop smp names tpm idx s = Inr s' \<and> P (k + length idx) s'"
  using assms(1)
proof (induction idx arbitrary: k s)
  case Nil
  then show ?case by simp
next
  case (Cons i idx)
  from assms(2) [OF Cons.prems] obtain s1
    where s1: "match_step smp names tpm s = Inr s1" "P (Suc k) s1" by blast
  from Cons.IH [OF s1(2)] s1(1) show ?case by simp
qed

lemma day_loop_rule:
  assumes "P k s"
    and "\<And>k s d. P k s \<Longrightarrow> \<exists>s'. day_step smp names tpm mpd d s = Inr s' \<and> P (Suc k) s'"
  shows "\<exists>s'. day_loop smp names tpm mpd ds s = Inr s' \<and> P (k + length ds) s'"
  using assms(1)
proof (induction ds arbitrary: k s)
  case Nil
  then show ?case by simp
next
  case (Cons d ds)
  from assms(2) [OF Cons.prems] obtain s1
    where s1: "day_step smp names tpm mpd d s = Inr s1" "P (Suc k) s1" by blast
  from Cons.IH [OF s1(2)] s1(1) show ?case by simp
qed

lemma wf_match_primary_selection:
  "wf_match names k \<lparr>match_id = m, teams = primary_selection names cnt k\<rparr>"
  using set_py_take [of k "sort_key (\<lambda>t. the (cnt t)) names"]
  by (auto simp: wf_match_def primary_selection_def distinct_py_take intro: length_py_take_cong)

lemma match_inv_start: "dom c = set names \<Longrightarrow> match_inv names k g c m 0 (g, c, m, [])"
  by (simp add: match_inv_def)

lemma match_inv_step:
  assumes le: "k \<le> int (length names)" and inv: "match_inv names k g c0 m0 n s"
  shows "\<exists>s'. match_step smp names k s = Inr s' \<and> match_inv names k g c0 m0 (Suc n) s'"
proof -
  obtain g' c m dm where s: "s = (g', c, m, dm)" by (cases s) auto
  from inv have g: "g' = g" and dom: "dom c = set names" and m: "m = m0 + int n"
    and len: "length dm = n" and ids: "map match_id dm = map (\<lambda>i. m0 + int i) [0..<n]"
    and wf: "\<forall>x\<in>set dm. wf_match names k x"
    and total: "count_sum c = count_sum c0 + int (n * length (py_take k names))"
    and bal: "distinct names \<longrightarrow> balanced names c0 \<longrightarrow> balanced names c"
    and first: "n = 0 \<longrightarrow> c = c0" and hd: "0 < n \<longrightarrow> teams (hd dm) = primary_selection names c0 k"
    by (simp_all add: match_inv_def s)
  let ?sel = "primary_selection names c k"
  let ?new = "\<lparr>match_id = m, teams = ?sel\<rparr>"
  from dom have sub: "set names \<subseteq> dom c" by simp
  from match_step_enough [OF le sub, where smp = smp and g = g and mid = m and dm = dm]
  obtain c'
    where upd: "update_counts c ?sel = Inr c'"
      and step: "match_step smp names k s = Inr (g, c', m + 1, dm @ [?new])"
    unfolding s g by blast
  have dom': "dom c' = set names"
    using dom_update_counts [OF upd] dom by simp
  have sel: "set ?sel \<subseteq> dom c" "length ?sel = length (py_take k names)"
    using wf_match_primary_selection [of names k m c] dom by (simp_all add: wf_match_def)
  have "count_sum c' = count_sum c + int (length ?sel)"
    unfolding count_sum_def using upd sel(1) by (rule sum_update_counts) (simp add: dom)
  then have total': "count_sum c' = count_sum c0 + int (Suc n * length (py_take k names))"
    by (simp add: total sel(2) algebra_simps)
  have bal': "distinct names \<longrightarrow> balanced names c0 \<longrightarrow> balanced names c'"
    using bal balanced_update [OF _ sub _ upd] by blast
  have hd': "teams (hd (dm @ [?new])) = primary_selection names c0 k"
  proof (cases "n = 0")
    case True
    with len first show ?thesis by simp
  next
    case False
    with len hd show ?thesis by (cases dm) auto
  qed
  have "match_inv names k g c0 m0 (Suc n) (g, c', m + 1, dm @ [?new])"
    unfolding match_inv_def
    using dom' m len ids wf total' bal' hd' by (simp add: wf_match_primary_selection)
  with step show ?thesis by blast
qed

lemma match_loop_inv:
  assumes "k \<le> int (length names)" "dom c = set names"
  shows "\<exists>s'. match_loop smp names k idx (g, c, m, []) = Inr s' \<and>
           match_inv names k g c m (length idx) s'"
  using match_loop_rule [where P = "match_inv names k g c m" and k = 0,
      OF match_inv_start [OF assms(2)] match_inv_step [OF assms(1)]]
  by simp

lemma length_py_range: "length (py_range n) = nat n"
  by (simp add: py_range_def)

lemma map_upt_add:
  "map f [0..<a + b] = map f [0..<a] @ map (\<lambda>i. f (a + i)) [0..<b]"
proof -
  have "[0..<a + b] = [0..<a] @ map (\<lambda>i. a + i) [0..<b]"
    by (induction b) simp_all
  then show ?thesis by (simp add: comp_def)
qed

lemma day_inv_start: "dom c = set names \<Longrightarrow> day_inv names k mpd g c m 0 (g, c, m, [])"
  by (simp add: day_inv_def)

lemma day_inv_step:
  assumes le: "k \<le> int (length names)" and inv: "day_inv names k mpd g c0 m0 n s"
  shows "\<exists>s'. day_step smp names k mpd d s = Inr s' \<and> day_inv names k mpd g c0 m0 (Suc n) s'"
proof -
  obtain g' c m sch where s: "s = (g', c, m, sch)" by (cases s) auto
  from inv have g: "g' = g" and dom: "dom c = set names" and m: "m = m0 + int (n * nat mpd)"
    and len: "length sch = n"
    and wf: "\<forall>d\<in>set sch. length (matches d) = nat mpd \<and> (\<forall>x\<in>set (matches d). wf_match names k x)"
    and ids: "map match_id (concat (map matches sch)) = map (\<lambda>i. m0 + int i) [0..<n * nat mpd]"
    and total: "count_sum c = count_sum c0 + int (n * nat mpd * length (py_take k names))"
    and bal: "distinct names \<longrightarrow> balanced names c0 \<longrightarrow> balanced names c"
    and first: "n = 0 \<longrightarrow> c = c0"
    and hd: "0 < n \<longrightarrow> 0 < mpd \<longrightarrow> teams (hd (matches (hd sch))) = primary_selection names c0 k"
    by (simp_all add: day_inv_def s)
  from match_loop_inv [OF le dom, of smp "py_range mpd" g m] obtain c' m' dm
    where run: "match_loop smp names k (py_range mpd) (g, c, m, []) = Inr (g, c', m', dm)"
      and minv: "match_inv names k g c m (nat mpd) (g, c', m', dm)"
    by (auto simp: length_py_range match_inv_def)
  from minv have dom': "dom c' = set names" and m': "m' = m + int (nat mpd)"
    and len': "length dm = nat mpd"
    and ids': "map match_id dm = map (\<lambda>i. m + int i) [0..<nat mpd]"
    and wf': "\<forall>x\<in>set dm. wf_match names k x"
    and total': "count_sum c' = count_sum c + int (nat mpd * length (py_take k names))"
    and bal': "distinct names \<longrightarrow> balanced names c \<longrightarrow> balanced names c'"
    and hd': "0 < nat mpd \<longrightarrow> teams (hd dm) = primary_selection names c k"
    by (simp_all add: match_inv_def)
  let ?new = "\<lparr>day = d + 1, matches = dm\<rparr>"
  have step: "day_step smp names k mpd d s = Inr (g, c', m', sch @ [?new])"
    by (simp add: s g run)
  have m2: "m' = m0 + int (Suc n * nat mpd)"
    by (simp add: m' m)
  have ids2: "map match_id (concat (map matches (sch @ [?new])))
                = map (\<lambda>i. m0 + int i) [0..<Suc n * nat mpd]"
  proof -
    have "[0..<Suc n * nat mpd] = [0..<n * nat mpd + nat mpd]"
      by (simp add: add.commute)
    then show ?thesis
      by (simp add: ids ids' m map_upt_add add.assoc)
  qed
  have total2: "count_sum c' = count_sum c0 + int (Suc n * nat mpd * length (py_take k names))"
    by (simp add: total' total algebra_simps)
  have hd2: "0 < mpd \<longrightarrow> teams (hd (matches (hd (sch @ [?new])))) = primary_selection names c0 k"
  proof (cases "n = 0")
    case True
    with len first hd' show ?thesis by simp
  next
    case False
    with len hd show ?thesis by (cases sch) auto
  qed
  have "day_inv names k mpd g c0 m0 (Suc n) (g, c', m', sch @ [?new])"
    unfolding day_inv_def
    using dom' m2 len wf len' wf' ids2 total2 bal bal' hd2 by auto
  with step show ?thesis by blast
qed

lemma day_loop_inv:
  assumes "k \<le> int (length names)" "dom c = set names"
  shows "\<exists>s'. day_loop smp names k mpd ds (g, c, m, []) = Inr s' \<and>
           day_inv names k mpd g c m (length ds) s'"
  using day_loop_rule [where P = "day_inv names k mpd g c m" and k = 0,
      OF day_inv_start [OF assms(2)] day_inv_step [OF assms(1)]]
  by simp

lemma generate_schedule_inv:
  assumes "k \<le> int (length names)"
  shows "\<exists>sch c m. generate_schedule smp g names k days mpd = Inr ((sch, c), g) \<and>
           day_inv names k mpd g (init_counts names) 1 (nat days) (g, c, m, sch)"
proof -
  from day_loop_inv [OF assms dom_init_counts, of smp mpd "py_range days" g 1]
  obtain c m sch
    where "day_loop smp names k mpd (py_range days) (g, init_counts names, 1, [])
             = Inr (g, c, m, sch)"
      and "day_inv names k mpd g (init_counts names) 1 (nat days) (g, c, m, sch)"
    by (auto simp: length_py_range day_inv_def)
  then show ?thesis
    by (auto simp: generate_schedule_def)
qed

subsection \<open>Further facts for the claims\<close>

lemmas run_simps = generate_schedule_def py_range_def init_counts_def select_teams_def
  sorted_by_count_def py_take_def random_sample_def Let_def upt_rec

lemma balanced_spread:
  assumes "balanced names cnt" "names \<noteq> []"
  shows "count_spread names cnt \<le> 1"
proof -
  let ?V = "(\<lambda>t. the (cnt t)) ` set names"
  have fin: "finite ?V" and ne: "?V \<noteq> {}" using assms(2) by auto
  from Max_in [OF fin ne] obtain t where t: "t \<in> set names" "Max ?V = the (cnt t)" by auto
  from Min_in [OF fin ne] obtain u where u: "u \<in> set names" "Min ?V = the (cnt u)" by auto
  from assms(1) t(1) u(1) have "the (cnt t) - the (cnt u) \<le> 1"
    by (simp add: balanced_def)
  then show ?thesis by (simp add: count_spread_def t(2) u(2))
qed

lemma balanced_init: "balanced names (init_counts names)"
  by (simp add: balanced_def init_counts_eq)

lemma upto_from_1: "map (\<lambda>i. 1 + int i) [0..<n] = [1..int n]"
proof (induction n)
  case 0
  show ?case by simp
next
  case (Suc n)
  have "[1..int (Suc n)] = [1..int n] @ [int n + 1]"
    using upto_rec2 [of 1 "int (Suc n)"] by (simp add: add.commute)
  with Suc show ?case by (simp add: add.commute)
qed

lemma sort_key_equal_keys:
  "\<forall>x\<in>set xs. f x = c \<Longrightarrow> sort_key f xs = xs"
proof (induction xs)
  case Nil
  show ?case by simp
next
  case (Cons x xs)
  then show ?case by (cases xs) simp_all
qed

lemma primary_selection_equal_counts:
  "\<forall>t\<in>set names. cnt t = Some c \<Longrightarrow> primary_selection names cnt k = py_take k names"
  by (simp add: primary_selection_def sort_key_equal_keys [where c = c])

lemma py_range_pos: "1 \<le> n \<Longrightarrow> py_range n = 0 # map int [1..<nat n]"
  by (simp add: py_range_def upt_conv_Cons)

text \<open>
  With a roster that is long enough, two runs from the same counts, match id and
  matches go through the same states, whatever their sample functions and generator
  states.
\<close>

lemma match_loop_indep:
  assumes "tpm \<le> int (length names)" "set names \<subseteq> dom c"
  shows "\<exists>c' m' dm'. match_loop smp1 names tpm idx (g1, c, m, dm) = Inr (g1, c', m', dm') \<and>
           match_loop smp2 names tpm idx (g2, c, m, dm) = Inr (g2, c', m', dm') \<and>
           set names \<subseteq> dom c'"
  using assms(2)
proof (induction idx arbitrary: c m dm)
  case Nil
  then show ?case by simp
next
  case (Cons i idx)
  let ?new = "\<lparr>match_id = m, teams = primary_selection names c tpm\<rparr>"
  from match_step_enough [OF assms(1) Cons.prems, where smp = smp1 and g = g1 and mid = m and dm = dm]
  obtain c1 where u: "update_counts c (primary_selection names c tpm) = Inr c1"
    and s1: "match_step smp1 names tpm (g1, c, m, dm) = Inr (g1, c1, m + 1, dm @ [?new])"
    by blast
  from match_step_enough [OF assms(1) Cons.prems, where smp = smp2 and g = g2 and mid = m and dm = dm] u
  have s2: "match_step smp2 names tpm (g2, c, m, dm) = Inr (g2, c1, m + 1, dm @ [?new])"
    by simp
  from Cons.prems dom_update_counts [OF u] have "set names \<subseteq> dom c1" by simp
  from Cons.IH [OF this, of "m + 1" "dm @ [?new]"] s1 s2 show ?case by simp
qed

lemma day_loop_indep:
  assumes "tpm \<le> int (length names)" "set names \<subseteq> dom c"
  shows "\<exists>c' m' sch'. day_loop smp1 names tpm mpd ds (g1, c, m, sch) = Inr (g1, c', m', sch') \<and>
           day_loop smp2 names tpm mpd ds (g2, c, m, sch) = Inr (g2, c', m', sch') \<and>
           set names \<subseteq> dom c'"
  using assms(2)
proof (induction ds arbitrary: c m sch)
  case Nil
  then show ?case by simp
next
  case (Cons d ds)
  from match_loop_indep [OF assms(1) Cons.prems, of smp1 "py_range mpd" g1 m "[]" smp2 g2]
  obtain c1 m1 dm1
    where r1: "match_loop smp1 names tpm (py_range mpd) (g1, c, m, []) = Inr (g1, c1, m1, dm1)"
      and r2: "match_loop smp2 names tpm (py_range mpd) (g2, c, m, []) = Inr (g2, c1, m1, dm1)"
      and dom: "set names \<subseteq> dom c1"
    by blast
  from Cons.IH [OF dom, of m1 "sch @ [\<lparr>day = d + 1, matches = dm1\<rparr>]"] r1 r2
  show ?case by simp
qed

section \<open>The claims\<close>

text \<open>
  C1. For every roster and every configuration with
  \<open>2 \<le> teams_per_match \<le> len(roster)\<close>, \<open>tournament_days \<ge> 1\<close> and
  \<open>matches_per_day \<ge> 1\<close>, the function returns a schedule of exactly
  \<open>tournament_days\<close> day records, each with exactly \<open>matches_per_day\<close> match records,
  each with exactly \<open>teams_per_match\<close> teams.
\<close>

theorem generate_schedule_shape:
  assumes "2 \<le> tpm" "tpm \<le> int (length names)" "1 \<le> days" "1 \<le> mpd"
  shows "\<exists>sched cnt g'.
           generate_schedule smp g names tpm days mpd = Inr ((sched, cnt), g') \<and>
           int (length sched) = days \<and>
           (\<forall>d\<in>set sched. int (length (matches d)) = mpd \<and>
              (\<forall>m\<in>set (matches d). int (length (teams m)) = tpm))"
proof -
  from generate_schedule_inv [OF assms(2), of smp g days mpd] obtain sch c m
    where run: "generate_schedule smp g names tpm days mpd = Inr ((sch, c), g)"
      and inv: "day_inv names tpm mpd g (init_counts names) 1 (nat days) (g, c, m, sch)"
    by blast
  have len: "length (py_take tpm names) = nat tpm"
    using assms(1,2) by (simp add: length_py_take_nonneg)
  from inv have "length sch = nat days"
    and "\<forall>d\<in>set sch. length (matches d) = nat mpd \<and>
           (\<forall>x\<in>set (matches d). length (teams x) = nat tpm)"
    by (simp_all add: day_inv_def wf_match_def len)
  with assms(1,3,4) have "int (length sch) = days \<and>
     (\<forall>d\<in>set sch. int (length (matches d)) = mpd \<and>
        (\<forall>m\<in>set (matches d). int (length (teams m)) = tpm))"
    by simp
  with run show ?thesis by blast
qed

theorem generate_schedule_shape_witness:
  "(2::int) \<le> 2 \<and> 2 \<le> int (length [''A'', ''B'', ''C'']) \<and> (1::int) \<le> 2 \<and> (1::int) \<le> 3 \<and>
   (\<exists>sched cnt g'.
      generate_schedule sample_prefix () [''A'', ''B'', ''C''] 2 2 3 = Inr ((sched, cnt), g') \<and>
      int (length sched) = 2 \<and>
      (\<forall>d\<in>set sched. int (length (matches d)) = 3 \<and>
         (\<forall>m\<in>set (matches d). int (length (teams m)) = 2)))"
proof -
  have h1: "(2::int) \<le> 2" and h2: "2 \<le> int (length [''A'', ''B'', ''C''])"
    and h3: "(1::int) \<le> 2" and h4: "(1::int) \<le> 3"
    by simp_all
  from h1 h2 h3 h4 generate_schedule_shape [OF h1 h2 h3 h4, of sample_prefix "()"]
  show ?thesis by (intro conjI)
qed

text \<open>
  C2. For every roster and every configuration with \<open>teams_per_match \<le> len(roster)\<close>,
  \<open>tournament_days \<ge> 1\<close> and \<open>matches_per_day \<ge> 1\<close>, the keys of the returned
  counts are the roster teams and the sum of the counts is
  \<open>tournament_days * matches_per_day * teams_per_match\<close>. A configuration has a number
  of teams per match: the input form gives \<open>teams_per_match\<close> a value from 2 to 16, and
  the equation holds for every value from 0 on.
\<close>

theorem count_sum_total:
  assumes "0 \<le> tpm" "tpm \<le> int (length names)" "1 \<le> days" "1 \<le> mpd"
  shows "\<exists>sched cnt g'.
           generate_schedule smp g names tpm days mpd = Inr ((sched, cnt), g') \<and>
           dom cnt = set names \<and> count_sum cnt = days * mpd * tpm"
proof -
  from generate_schedule_inv [OF assms(2), of smp g days mpd] obtain sch c m
    where run: "generate_schedule smp g names tpm days mpd = Inr ((sch, c), g)"
      and inv: "day_inv names tpm mpd g (init_counts names) 1 (nat days) (g, c, m, sch)"
    by blast
  have len: "length (py_take tpm names) = nat tpm"
    using assms(1,2) by (simp add: length_py_take_nonneg)
  have zero: "count_sum (init_counts names) = 0"
    by (simp add: count_sum_def dom_init_counts init_counts_eq)
  from inv have dom: "dom c = set names"
    and "count_sum c = int (nat days * nat mpd * nat tpm)"
    by (simp_all add: day_inv_def len zero)
  with assms(1,3,4) have "count_sum c = days * mpd * tpm" by simp
  with run dom show ?thesis by blast
qed

theorem count_sum_total_witness:
  "(0::int) \<le> 2 \<and> 2 \<le> int (length [''A'', ''B'', ''C'']) \<and> (1::int) \<le> 2 \<and> (1::int) \<le> 3 \<and>
   (\<exists>sched cnt g'.
      generate_schedule sample_prefix () [''A'', ''B'', ''C''] 2 2 3 = Inr ((sched, cnt), g') \<and>
      dom cnt = set [''A'', ''B'', ''C''] \<and> count_sum cnt = 2 * 3 * 2)"
proof -
  have h1: "(0::int) \<le> 2" and h2: "2 \<le> int (length [''A'', ''B'', ''C''])"
    and h3: "(1::int) \<le> 2" and h4: "(1::int) \<le> 3"
    by simp_all
  from h1 h2 h3 h4 count_sum_total [OF h1 h2 h3 h4, of sample_prefix "()"]
  show ?thesis by (intro conjI)
qed

text \<open>
  C3. For every roster of unique names and every configuration with
  \<open>teams_per_match \<le> len(roster)\<close>, at every point of a run the largest count of a
  roster team exceeds the smallest by at most 1. The point of the run after the first
  \<open>d\<close> days and the first \<open>j\<close> matches of the next day is the state of the inner loop
  run over the first \<open>j\<close> indices, started where the outer loop run over the first \<open>d\<close>
  indices ends; the run reaches it without raising. The points of a run have
  \<open>d < tournament_days\<close> and \<open>j \<le> matches_per_day\<close>; the bound holds for every
  \<open>d\<close> and \<open>j\<close>.
\<close>

theorem counts_stay_balanced:
  assumes "distinct names" "tpm \<le> int (length names)"
  shows "\<exists>g1 c1 m1 s1 g2 c2 m2 dm.
           day_loop smp names tpm mpd (take d (py_range days)) (g, init_counts names, 1, [])
             = Inr (g1, c1, m1, s1) \<and>
           match_loop smp names tpm (take j (py_range mpd)) (g1, c1, m1, [])
             = Inr (g2, c2, m2, dm) \<and>
           (\<forall>t\<in>set names. \<forall>u\<in>set names. the (c2 t) - the (c2 u) \<le> 1) \<and>
           (names \<noteq> [] \<longrightarrow> count_spread names c2 \<le> 1)"
proof -
  let ?ds = "take d (py_range days)" and ?js = "take j (py_range mpd)"
  from day_loop_inv [OF assms(2) dom_init_counts, of smp mpd ?ds g 1] obtain c1 m1 s1
    where r1: "day_loop smp names tpm mpd ?ds (g, init_counts names, 1, []) = Inr (g, c1, m1, s1)"
      and i1: "day_inv names tpm mpd g (init_counts names) 1 (length ?ds) (g, c1, m1, s1)"
    by (auto simp: day_inv_def)
  from i1 assms(1) have dom1: "dom c1 = set names" and b1: "balanced names c1"
    by (simp_all add: day_inv_def balanced_init)
  from match_loop_inv [OF assms(2) dom1, of smp ?js g m1] obtain c2 m2 dm
    where r2: "match_loop smp names tpm ?js (g, c1, m1, []) = Inr (g, c2, m2, dm)"
      and i2: "match_inv names tpm g c1 m1 (length ?js) (g, c2, m2, dm)"
    by (auto simp: match_inv_def)
  from i2 assms(1) b1 have b2: "balanced names c2"
    by (simp add: match_inv_def)
  then have "\<forall>t\<in>set names. \<forall>u\<in>set names. the (c2 t) - the (c2 u) \<le> 1"
    by (simp add: balanced_def)
  with r1 r2 balanced_spread [OF b2] show ?thesis by blast
qed

theorem counts_stay_balanced_witness:
  "distinct [''A'', ''B'', ''C''] \<and> 2 \<le> int (length [''A'', ''B'', ''C'']) \<and>
   (\<exists>g1 c1 m1 s1 g2 c2 m2 dm.
      day_loop sample_prefix [''A'', ''B'', ''C''] 2 2 (take 1 (py_range 2)) ((), init_counts [''A'', ''B'', ''C''], 1, [])
        = Inr (g1, c1, m1, s1) \<and>
      match_loop sample_prefix [''A'', ''B'', ''C''] 2 (take 1 (py_range 2)) (g1, c1, m1, [])
        = Inr (g2, c2, m2, dm) \<and>
      (\<forall>t\<in>set [''A'', ''B'', ''C'']. \<forall>u\<in>set [''A'', ''B'', ''C'']. the (c2 t) - the (c2 u) \<le> 1) \<and>
      ([''A'', ''B'', ''C''] \<noteq> [] \<longrightarrow> count_spread [''A'', ''B'', ''C''] c2 \<le> 1))"
proof -
  have h1: "distinct [''A'', ''B'', ''C'']" and h2: "2 \<le> int (length [''A'', ''B'', ''C''])"
    by simp_all
  from h1 h2 counts_stay_balanced [OF h1 h2, of sample_prefix 2 1 2 "()" 1]
  show ?thesis by (intro conjI)
qed

text \<open>
  C4. For every roster and every configuration with \<open>teams_per_match \<le> len(roster)\<close>,
  \<open>tournament_days \<ge> 1\<close> and \<open>matches_per_day \<ge> 1\<close>, the match ids of the returned
  schedule, read day by day and match by match, are
  \<open>1, 2, ..., tournament_days * matches_per_day\<close>.
\<close>

theorem match_ids_contiguous:
  assumes "tpm \<le> int (length names)" "1 \<le> days" "1 \<le> mpd"
  shows "\<exists>sched cnt g'.
           generate_schedule smp g names tpm days mpd = Inr ((sched, cnt), g') \<and>
           map match_id (concat (map matches sched)) = [1..days * mpd]"
proof -
  from generate_schedule_inv [OF assms(1), of smp g days mpd] obtain sch c m
    where run: "generate_schedule smp g names tpm days mpd = Inr ((sch, c), g)"
      and inv: "day_inv names tpm mpd g (init_counts names) 1 (nat days) (g, c, m, sch)"
    by blast
  from inv have "map match_id (concat (map matches sch)) = [1..int (nat days * nat mpd)]"
    by (simp add: day_inv_def upto_from_1)
  with assms(2,3) have "map match_id (concat (map matches sch)) = [1..days * mpd]" by simp
  with run show ?thesis by blast
qed

theorem match_ids_contiguous_witness:
  "2 \<le> int (length [''A'', ''B'', ''C'']) \<and> (1::int) \<le> 2 \<and> (1::int) \<le> 3 \<and>
   (\<exists>sched cnt g'.
      generate_schedule sample_prefix () [''A'', ''B'', ''C''] 2 2 3 = Inr ((sched, cnt), g') \<and>
      map match_id (concat (map matches sched)) = [1..2 * 3])"
proof -
  have h1: "2 \<le> int (length [''A'', ''B'', ''C''])" and h2: "(1::int) \<le> 2" and h3: "(1::int) \<le> 3"
    by simp_all
  from h1 h2 h3 match_ids_contiguous [OF h1 h2 h3, of sample_prefix "()"]
  show ?thesis by (intro conjI)
qed

text \<open>
  C5. For every roster of pairwise distinct names and every configuration with
  \<open>teams_per_match \<le> len(roster)\<close>, the function returns a schedule and no match
  record of it has the same team twice.
\<close>

theorem matches_have_distinct_teams:
  assumes "distinct names" "tpm \<le> int (length names)"
  shows "\<exists>sched cnt g'.
           generate_schedule smp g names tpm days mpd = Inr ((sched, cnt), g') \<and>
           (\<forall>d\<in>set sched. \<forall>m\<in>set (matches d). distinct (teams m))"
proof -
  from generate_schedule_inv [OF assms(2), of smp g days mpd] obtain sch c m
    where run: "generate_schedule smp g names tpm days mpd = Inr ((sch, c), g)"
      and inv: "day_inv names tpm mpd g (init_counts names) 1 (nat days) (g, c, m, sch)"
    by blast
  from inv assms(1) have "\<forall>d\<in>set sch. \<forall>m\<in>set (matches d). distinct (teams m)"
    by (simp add: day_inv_def wf_match_def)
  with run show ?thesis by blast
qed

theorem matches_have_distinct_teams_witness:
  "distinct [''A'', ''B'', ''C''] \<and> 2 \<le> int (length [''A'', ''B'', ''C'']) \<and>
   (\<exists>sched cnt g'.
      generate_schedule sample_prefix () [''A'', ''B'', ''C''] 2 2 3 = Inr ((sched, cnt), g') \<and>
      (\<forall>d\<in>set sched. \<forall>m\<in>set (matches d). distinct (teams m)))"
proof -
  have h1: "distinct [''A'', ''B'', ''C'']" and h2: "2 \<le> int (length [''A'', ''B'', ''C''])"
    by simp_all
  from h1 h2 matches_have_distinct_teams [OF h1 h2, of sample_prefix "()" 2 3]
  show ?thesis by (intro conjI)
qed

text \<open>
  C6. For the roster \<open>T1, ..., T10\<close> with \<open>teams_per_match = 4\<close>,
  \<open>tournament_days = 1\<close> and \<open>matches_per_day = 2\<close>, the function returns one day of
  two matches, match 1 with the teams \<open>T1, T2, T3, T4\<close> and match 2 with the teams
  \<open>T5, T6, T7, T8\<close>, and the counts map \<open>T1\<close> to \<open>T8\<close> to 1 and \<open>T9\<close>, \<open>T10\<close> to 0,
  whatever the random generator.
\<close>

theorem example_ten_teams:
  "generate_schedule smp g
     [''T1'', ''T2'', ''T3'', ''T4'', ''T5'', ''T6'', ''T7'', ''T8'', ''T9'', ''T10''] 4 1 2 =
   Inr (([\<lparr>day = 1, matches =
            [\<lparr>match_id = 1, teams = [''T1'', ''T2'', ''T3'', ''T4'']\<rparr>,
             \<lparr>match_id = 2, teams = [''T5'', ''T6'', ''T7'', ''T8'']\<rparr>]\<rparr>],
         [''T1'' \<mapsto> 1, ''T2'' \<mapsto> 1, ''T3'' \<mapsto> 1, ''T4'' \<mapsto> 1, ''T5'' \<mapsto> 1,
          ''T6'' \<mapsto> 1, ''T7'' \<mapsto> 1, ''T8'' \<mapsto> 1, ''T9'' \<mapsto> 0, ''T10'' \<mapsto> 0]), g)"
  by (simp add: run_simps fun_eq_iff)

text \<open>
  C7. For every roster and every configuration with \<open>teams_per_match \<le> len(roster)\<close>,
  \<open>tournament_days \<ge> 1\<close> and \<open>matches_per_day \<ge> 1\<close>, the first match of the returned
  schedule has exactly the first \<open>teams_per_match\<close> teams of the roster, in roster order
  (\<^verbatim>\<open>team_names[:teams_per_match]\<close>): all counts are equal when it is formed, and the
  sort keeps teams of equal count in roster order
  (lemma \<open>primary_selection_equal_counts\<close> for any equal counts).
\<close>

theorem first_match_roster_order:
  assumes "tpm \<le> int (length names)" "1 \<le> days" "1 \<le> mpd"
  shows "\<exists>sched cnt g'.
           generate_schedule smp g names tpm days mpd = Inr ((sched, cnt), g') \<and>
           sched \<noteq> [] \<and> matches (hd sched) \<noteq> [] \<and>
           teams (hd (matches (hd sched))) = py_take tpm names \<and>
           (0 \<le> tpm \<longrightarrow> teams (hd (matches (hd sched))) = take (nat tpm) names)"
proof -
  from generate_schedule_inv [OF assms(1), of smp g days mpd] obtain sch c m
    where run: "generate_schedule smp g names tpm days mpd = Inr ((sch, c), g)"
      and inv: "day_inv names tpm mpd g (init_counts names) 1 (nat days) (g, c, m, sch)"
    by blast
  have eq: "primary_selection names (init_counts names) tpm = py_take tpm names"
    by (rule primary_selection_equal_counts [where c = 0]) (simp add: init_counts_eq)
  from inv assms(2,3) have len: "length sch = nat days"
    and all: "\<forall>d\<in>set sch. length (matches d) = nat mpd"
    and first: "teams (hd (matches (hd sch))) = py_take tpm names"
    by (simp_all add: day_inv_def eq)
  from len assms(2) have ne: "sch \<noteq> []" by auto
  then have "hd sch \<in> set sch" by simp
  with all assms(3) have "matches (hd sch) \<noteq> []" by auto
  moreover from first have "0 \<le> tpm \<longrightarrow> teams (hd (matches (hd sch))) = take (nat tpm) names"
    by (simp add: py_take_def)
  ultimately show ?thesis using run ne first by blast
qed

theorem first_match_roster_order_witness:
  "2 \<le> int (length [''A'', ''B'', ''C'']) \<and> (1::int) \<le> 2 \<and> (1::int) \<le> 3 \<and>
   (\<exists>sched cnt g'.
      generate_schedule sample_prefix () [''A'', ''B'', ''C''] 2 2 3 = Inr ((sched, cnt), g') \<and>
      sched \<noteq> [] \<and> matches (hd sched) \<noteq> [] \<and>
      teams (hd (matches (hd sched))) = py_take 2 [''A'', ''B'', ''C''] \<and>
      ((0::int) \<le> 2 \<longrightarrow> teams (hd (matches (hd sched))) = take (nat 2) [''A'', ''B'', ''C'']))"
proof -
  have h1: "2 \<le> int (length [''A'', ''B'', ''C''])" and h2: "(1::int) \<le> 2" and h3: "(1::int) \<le> 3"
    by simp_all
  from h1 h2 h3 first_match_roster_order [OF h1 h2 h3, of sample_prefix "()"]
  show ?thesis by (intro conjI)
qed

text \<open>
  C8, as amended. When the counts are defined on the roster, the primary selection has
  fewer than \<open>teams_per_match\<close> teams exactly when \<open>teams_per_match > len(roster)\<close>;
  then no roster team is left outside the primary selection, the sample of the
  remainder is asked of an empty list and raises ValueError, and the iteration ends in
  that error: no match is formed.
\<close>

theorem short_roster_sample_fails:
  assumes "set names \<subseteq> dom cnt"
  shows "(int (length (primary_selection names cnt tpm)) < tpm \<longleftrightarrow> int (length names) < tpm) \<and>
         (int (length names) < tpm \<longrightarrow>
            filter (\<lambda>t. t \<notin> set (primary_selection names cnt tpm)) names = [] \<and>
            select_teams smp g names cnt tpm = Inl ValueError \<and>
            match_step smp names tpm (g, cnt, mid, day_matches) = Inl ValueError)"
proof -
  have "int (length (primary_selection names cnt tpm)) < tpm \<longleftrightarrow> int (length names) < tpm"
    by (simp add: primary_selection_def py_take_short_iff)
  moreover have "filter (\<lambda>t. t \<notin> set (primary_selection names cnt tpm)) names = []"
    if "int (length names) < tpm"
    using that by (simp add: primary_selection_def py_take_def filter_empty_conv)
  ultimately show ?thesis
    using select_teams_short [OF _ assms, of tpm smp g] by simp
qed

theorem short_roster_sample_fails_witness:
  "set [''A''] \<subseteq> dom (init_counts [''A'']) \<and> int (length [''A'']) < 2 \<and>
   filter (\<lambda>t. t \<notin> set (primary_selection [''A''] (init_counts [''A'']) 2)) [''A''] = [] \<and>
   select_teams sample_prefix () [''A''] (init_counts [''A'']) 2 = Inl ValueError \<and>
   match_step sample_prefix [''A''] 2 ((), init_counts [''A''], 1, []) = Inl ValueError"
proof -
  have h1: "set [''A''] \<subseteq> dom (init_counts [''A''])"
    by (simp add: dom_init_counts)
  have h2: "int (length [''A'']) < 2"
    by simp
  from h1 h2 short_roster_sample_fails [OF h1, of 2 sample_prefix "()" 1 "[]"]
  show ?thesis by blast
qed

text \<open>
  C8 as it is written says that a match of \<open>teams_per_match\<close> teams is still produced.
  With a roster of one team and \<open>teams_per_match = 2\<close> the run raises ValueError at
  the first match, although the sample function could return any sample asked of it.
\<close>

theorem short_roster_no_match_counterexample:
  "int (length [''A'']) < 2 \<and>
   generate_schedule sample_prefix () [''A''] 2 1 1 = Inl ValueError"
  by (simp add: run_simps)

text \<open>
  C9. For every roster and every configuration with \<open>teams_per_match \<le> len(roster)\<close>,
  two runs with any two random generators return the same schedule and the same counts,
  and each leaves its generator as it found it.
\<close>

theorem generate_schedule_deterministic:
  assumes "tpm \<le> int (length names)"
  shows "\<exists>sched cnt. generate_schedule smp1 g1 names tpm days mpd = Inr ((sched, cnt), g1) \<and>
           generate_schedule smp2 g2 names tpm days mpd = Inr ((sched, cnt), g2)"
proof -
  have "set names \<subseteq> dom (init_counts names)" by (simp add: dom_init_counts)
  from day_loop_indep [OF assms this, of smp1 mpd "py_range days" g1 1 "[]" smp2 g2]
  show ?thesis by (auto simp: generate_schedule_def)
qed

theorem generate_schedule_deterministic_witness:
  "2 \<le> int (length [''A'', ''B'', ''C'']) \<and>
   (\<exists>sched cnt.
      generate_schedule sample_prefix () [''A'', ''B'', ''C''] 2 2 3 = Inr ((sched, cnt), ()) \<and>
      generate_schedule sample_rotate 5 [''A'', ''B'', ''C''] 2 2 3 = Inr ((sched, cnt), 5))"
proof -
  have h1: "2 \<le> int (length [''A'', ''B'', ''C''])"
    by simp
  from h1 generate_schedule_deterministic [OF h1, of sample_prefix "()" 2 3 sample_rotate 5]
  show ?thesis by (intro conjI)
qed

text \<open>
  C10. For every roster and every configuration with \<open>tournament_days \<ge> 1\<close>,
  \<open>matches_per_day \<ge> 1\<close> and \<open>teams_per_match \<ge> 2\<close>, the function raises (the
  ValueError of the sample) if \<open>teams_per_match > len(roster)\<close>, and returns a schedule
  and counts otherwise.
\<close>

theorem generate_schedule_raises_iff:
  assumes "1 \<le> days" "1 \<le> mpd" "2 \<le> tpm"
  shows "if int (length names) < tpm
         then generate_schedule smp g names tpm days mpd = Inl ValueError
         else \<exists>sched cnt g'. generate_schedule smp g names tpm days mpd = Inr ((sched, cnt), g')"
proof (cases "int (length names) < tpm")
  case True
  have "select_teams smp g names (init_counts names) tpm = Inl ValueError"
    by (rule select_teams_short [OF True]) (simp add: dom_init_counts)
  then have "generate_schedule smp g names tpm days mpd = Inl ValueError"
    by (simp add: generate_schedule_def py_range_pos [OF assms(1)] py_range_pos [OF assms(2)])
  with True show ?thesis by simp
next
  case False
  then have "tpm \<le> int (length names)" by simp
  from generate_schedule_inv [OF this, of smp g days mpd] False show ?thesis by auto
qed

theorem generate_schedule_raises_iff_witness:
  "(1::int) \<le> 2 \<and> (1::int) \<le> 3 \<and> (2::int) \<le> 4 \<and>
   (if int (length [''A'', ''B'', ''C'']) < 4
    then generate_schedule sample_prefix () [''A'', ''B'', ''C''] 4 2 3 = Inl ValueError
    else \<exists>sched cnt g'. generate_schedule sample_prefix () [''A'', ''B'', ''C''] 4 2 3 = Inr ((sched, cnt), g'))"
proof -
  have h1: "(1::int) \<le> 2" and h2: "(1::int) \<le> 3" and h3: "(2::int) \<le> 4"
    by simp_all
  from h1 h2 h3 generate_schedule_raises_iff [OF h1 h2 h3, of "[''A'', ''B'', ''C'']" sample_prefix "()"]
  show ?thesis by (intro conjI)
qed

end
